theory Spec2Isabelle
  imports Main "HOL-Library.Signed_Division" "HOL-Library.Multiset"
begin

section \<open>The quadtree of \<^verbatim>\<open>quadTree.cpp\<close>\<close>

text \<open>
  The program builds a quadtree over a rectangle: the constructor numbers every node from
  the static counter \<^verbatim>\<open>nextId\<close>, \<^verbatim>\<open>subdivide\<close> splits a node into four children and
  recurses, \<^verbatim>\<open>toDotty\<close> writes the tree as a Graphviz document.

  Modelling decisions.
  \<^item> The C++ \<^verbatim>\<open>int\<close> is the HOL type \<open>int\<close>. The program divides by two only values above
    15, where nothing overflows and truncation and flooring agree; the division is
    nevertheless the truncating \<open>sdiv\<close>. The two other operations, adding a child size to a
    coordinate and incrementing the counter, are undefined in C++ once they leave the range
    of \<^verbatim>\<open>int\<close>; the model describes the executions in which they stay inside it. Every
    rectangle of the tree lies inside the root's (lemma \<open>subdivide_inside\<close>), so no
    coordinate leaves the range when the root's rectangle is inside it.
  \<^item> A node is a value of a datatype whose four child pointers are options: \<open>None\<close> is
    \<^verbatim>\<open>nullptr\<close>. A parent owns its children and no pointer is shared, so the heap is a tree.
  \<^item> The static counter and the standard output stream form the state, which every
    operation takes and returns. The state has one history variable, \<open>created\<close>, the
    identities in the order in which the constructor handed them out; no operation reads it.
  \<^item> A stream is the string of the characters written to it.
\<close>

subsection \<open>Decimal output of integers\<close>

text \<open>
  The standard library's \<^verbatim>\<open>std::to_string(int)\<close> and \<^verbatim>\<open>operator<<(int)\<close>: decimal digits,
  a minus sign for a negative number.
\<close>

definition digit :: "nat \<Rightarrow> char" where
  "digit d = ''0123456789'' ! d"

fun dec :: "nat \<Rightarrow> string" where
  "dec n = (if n < 10 then [digit n] else dec (n div 10) @ [digit (n mod 10)])"

declare dec.simps [simp del]

definition to_string :: "int \<Rightarrow> string" where
  "to_string i = (if i < 0 then ''-'' @ dec (nat (- i)) else dec (nat i))"

text \<open>The two characters that a HOL string literal cannot hold.\<close>

definition dquote :: string where
  "dquote = [CHR 0x22]"

definition bslash :: string where
  "bslash = [CHR 0x5C]"

subsection \<open>Point\<close>

record Point =
  x :: int
  y :: int

definition toString :: "Point \<Rightarrow> string" where
  "toString p = ''('' @ to_string (x p) @ '', '' @ to_string (y p) @ '')''"

subsection \<open>State and nodes\<close>

record state =
  nextId :: int
  cout :: string
  created :: "int list"

text \<open>\<^verbatim>\<open>int QuadTree::nextId = 0;\<close> and nothing written yet.\<close>

definition init :: state where
  "init = \<lparr>nextId = 0, cout = [], created = []\<rparr>"

datatype QuadTree = QuadTree
  (id': int) (pos: Point) (width: int) (height: int)
  (northWest: "QuadTree option") (northEast: "QuadTree option")
  (southWest: "QuadTree option") (southEast: "QuadTree option")

text \<open>
  The constructor, called through \<^verbatim>\<open>new\<close>: all four children are \<^verbatim>\<open>nullptr\<close> and
  \<^verbatim>\<open>_id = nextId++\<close>.
\<close>

definition new_QuadTree :: "Point \<Rightarrow> int \<Rightarrow> int \<Rightarrow> state \<Rightarrow> QuadTree \<times> state" where
  "new_QuadTree p w h s =
     (QuadTree (nextId s) p w h None None None None,
      s\<lparr>nextId := nextId s + 1, created := created s @ [nextId s]\<rparr>)"

subsection \<open>subdivide\<close>

text \<open>The line that the guard of \<^verbatim>\<open>subdivide\<close> writes to the standard output.\<close>

definition diagnostic :: "QuadTree \<Rightarrow> string" where
  "diagnostic t =
     ''Node '' @ to_string (id' t) @ '': Cannot subdivide further (Size=''
       @ to_string (width t) @ ''x'' @ to_string (height t) @ ''). Marking as leaf.''
       @ ''\<newline>''"

function subdivide :: "QuadTree \<Rightarrow> state \<Rightarrow> QuadTree \<times> state" where
  "subdivide t s =
     (if width t \<le> 15 \<or> height t \<le> 15 \<or> northWest t \<noteq> None then
        (t, s\<lparr>cout := cout s @ diagnostic t\<rparr>)
      else
        let childWidth = width t sdiv 2;
            childHeight = height t sdiv 2;
            (nw, s1) = new_QuadTree \<lparr>x = x (pos t), y = y (pos t)\<rparr>
                         childWidth childHeight s;
            (ne, s2) = new_QuadTree \<lparr>x = x (pos t) + childWidth, y = y (pos t)\<rparr>
                         childWidth childHeight s1;
            (sw, s3) = new_QuadTree \<lparr>x = x (pos t), y = y (pos t) + childHeight\<rparr>
                         childWidth childHeight s2;
            (se, s4) = new_QuadTree \<lparr>x = x (pos t) + childWidth, y = y (pos t) + childHeight\<rparr>
                         childWidth childHeight s3;
            (nw', s5) = subdivide nw s4;
            (ne', s6) = subdivide ne s5;
            (sw', s7) = subdivide sw s6;
            (se', s8) = subdivide se s7
        in (QuadTree (id' t) (pos t) (width t) (height t)
              (Some nw') (Some ne') (Some sw') (Some se'), s8))"
  by pat_completeness auto

lemma sdiv_two_above_floor: "(15::int) < w \<Longrightarrow> w sdiv 2 = w div 2"
  by (simp add: signed_divide_int_def sgn_if)

text \<open>
  Every recursive call is on a node whose width is half the caller's, which is above 15:
  the width is a measure, and every argument is in the domain of the recursion.
\<close>

lemma subdivide_total: "All subdivide_dom"
  apply (relation "measure (\<lambda>(t, s). nat (width t))")
  apply (auto simp: new_QuadTree_def sdiv_two_above_floor)
  done

termination subdivide
  by (rule subdivide_total)

declare subdivide.simps [simp del]

subsection \<open>toDotty\<close>

text \<open>
  \<^verbatim>\<open>toDottyRecursive\<close> takes the stream and returns it with the node's declaration, and
  then for each child that is not \<^verbatim>\<open>nullptr\<close> the edge to it and the child's own output.
\<close>

fun toDottyRecursive :: "QuadTree \<Rightarrow> string \<Rightarrow> string" where
  "toDottyRecursive (QuadTree i p w h nw ne sw se) ss =
     (let ss1 = ss @ ''  node_'' @ to_string i @ '' [label='' @ dquote
                  @ ''ID: '' @ to_string i @ bslash @ ''n''
                  @ ''Pos: '' @ toString p @ bslash @ ''n''
                  @ ''Size: '' @ to_string w @ ''x'' @ to_string h;
          ss2 = (if nw = None
                 then ss1 @ bslash @ ''n(Leaf)'' @ dquote @ '', fillcolor=lightgreen];''
                        @ ''\<newline>''
                 else ss1 @ bslash @ ''n(Internal Node)'' @ dquote @ ''];'' @ ''\<newline>'');
          ss3 = (case nw of None \<Rightarrow> ss2
                 | Some c \<Rightarrow> toDottyRecursive c
                     (ss2 @ ''  node_'' @ to_string i @ '' -> node_'' @ to_string (id' c)
                        @ '' [label='' @ dquote @ ''NW'' @ dquote @ ''];'' @ ''\<newline>''));
          ss4 = (case ne of None \<Rightarrow> ss3
                 | Some c \<Rightarrow> toDottyRecursive c
                     (ss3 @ ''  node_'' @ to_string i @ '' -> node_'' @ to_string (id' c)
                        @ '' [label='' @ dquote @ ''NE'' @ dquote @ ''];'' @ ''\<newline>''));
          ss5 = (case sw of None \<Rightarrow> ss4
                 | Some c \<Rightarrow> toDottyRecursive c
                     (ss4 @ ''  node_'' @ to_string i @ '' -> node_'' @ to_string (id' c)
                        @ '' [label='' @ dquote @ ''SW'' @ dquote @ ''];'' @ ''\<newline>''))
      in (case se of None \<Rightarrow> ss5
          | Some c \<Rightarrow> toDottyRecursive c
              (ss5 @ ''  node_'' @ to_string i @ '' -> node_'' @ to_string (id' c)
                 @ '' [label='' @ dquote @ ''SE'' @ dquote @ ''];'' @ ''\<newline>'')))"

definition toDotty :: "QuadTree \<Rightarrow> string" where
  "toDotty t =
     (let ss = ''digraph QuadTree {'' @ ''\<newline>'';
          ss = ss @ ''  node [shape=box, style=filled, fillcolor=lightblue];'' @ ''\<newline>'';
          ss = toDottyRecursive t ss
      in ss @ ''}'' @ ''\<newline>'')"

section \<open>Observations on trees and on the output\<close>

text \<open>
  The functions of this section are not part of the program: they name what the
  properties below speak about. The children of a node are the children its non-null
  pointers lead to, in the order north-west, north-east, south-west, south-east; the
  nodes of a tree are listed in depth-first preorder, children in that order.
\<close>

fun opt_list :: "'a option \<Rightarrow> 'a list" where
  "opt_list None = []"
| "opt_list (Some c) = [c]"

definition children :: "QuadTree \<Rightarrow> QuadTree list" where
  "children t = opt_list (northWest t) @ opt_list (northEast t)
                  @ opt_list (southWest t) @ opt_list (southEast t)"

fun nodes :: "QuadTree \<Rightarrow> QuadTree list" where
  "nodes (QuadTree i p w h nw ne sw se) =
     QuadTree i p w h nw ne sw se
       # (case nw of None \<Rightarrow> [] | Some c \<Rightarrow> nodes c)
       @ (case ne of None \<Rightarrow> [] | Some c \<Rightarrow> nodes c)
       @ (case sw of None \<Rightarrow> [] | Some c \<Rightarrow> nodes c)
       @ (case se of None \<Rightarrow> [] | Some c \<Rightarrow> nodes c)"

text \<open>A node as the constructor leaves it, with no child.\<close>

abbreviation leaf :: "int \<Rightarrow> Point \<Rightarrow> int \<Rightarrow> int \<Rightarrow> QuadTree" where
  "leaf i p w h \<equiv> QuadTree i p w h None None None None"

text \<open>
  The order in which \<^verbatim>\<open>subdivide\<close> constructs the nodes of a tree: the four children of
  a node first, then everything below the north-west child, then everything below the
  north-east child, and so on. The root was constructed before the call.
\<close>

fun expansion :: "QuadTree \<Rightarrow> QuadTree list" where
  "expansion (QuadTree i p w h nw ne sw se) =
     opt_list nw @ opt_list ne @ opt_list sw @ opt_list se
       @ (case nw of None \<Rightarrow> [] | Some c \<Rightarrow> expansion c)
       @ (case ne of None \<Rightarrow> [] | Some c \<Rightarrow> expansion c)
       @ (case sw of None \<Rightarrow> [] | Some c \<Rightarrow> expansion c)
       @ (case se of None \<Rightarrow> [] | Some c \<Rightarrow> expansion c)"

definition construction_order :: "QuadTree \<Rightarrow> QuadTree list" where
  "construction_order t = t # expansion t"


text \<open>The rectangle of \<open>n\<close> lies inside the rectangle of \<open>t\<close>.\<close>

definition inside :: "QuadTree \<Rightarrow> QuadTree \<Rightarrow> bool" where
  "inside n t =
     (x (pos t) \<le> x (pos n) \<and> x (pos n) + width n \<le> x (pos t) + width t
      \<and> y (pos t) \<le> y (pos n) \<and> y (pos n) + height n \<le> y (pos t) + height t)"


subsection \<open>The lines of the graph description\<close>

text \<open>
  The text is read as lines, each ended by a newline. An edge declaration is a line that
  holds the arrow \<^verbatim>\<open>->\<close>. \<open>node_decl\<close> and \<open>edge_decl\<close> are the two kinds of lines that
  \<^verbatim>\<open>toDottyRecursive\<close> writes, and \<open>tree_lines\<close> the lines it writes for a whole subtree.
\<close>

fun lines_from :: "string \<Rightarrow> string \<Rightarrow> string list" where
  "lines_from cur [] = (if cur = [] then [] else [cur])"
| "lines_from cur (c # cs) =
     (if c = CHR ''\<newline>'' then cur # lines_from [] cs else lines_from (cur @ [c]) cs)"

definition split_lines :: "string \<Rightarrow> string list" where
  "split_lines s = lines_from [] s"

fun has_arrow :: "string \<Rightarrow> bool" where
  "has_arrow (a # b # cs) = (a = CHR ''-'' \<and> b = CHR ''>'' \<or> has_arrow (b # cs))"
| "has_arrow _ = False"

definition node_decl :: "QuadTree \<Rightarrow> string" where
  "node_decl t =
     ''  node_'' @ to_string (id' t) @ '' [label='' @ dquote
       @ ''ID: '' @ to_string (id' t) @ bslash @ ''n''
       @ ''Pos: '' @ toString (pos t) @ bslash @ ''n''
       @ ''Size: '' @ to_string (width t) @ ''x'' @ to_string (height t)
       @ (if northWest t = None
          then bslash @ ''n(Leaf)'' @ dquote @ '', fillcolor=lightgreen];''
          else bslash @ ''n(Internal Node)'' @ dquote @ ''];'')"

definition edge_decl :: "QuadTree \<Rightarrow> QuadTree \<Rightarrow> string \<Rightarrow> string" where
  "edge_decl t c l =
     ''  node_'' @ to_string (id' t) @ '' -> node_'' @ to_string (id' c)
       @ '' [label='' @ dquote @ l @ dquote @ ''];''"

fun tree_lines :: "QuadTree \<Rightarrow> string list" where
  "tree_lines (QuadTree i p w h nw ne sw se) =
     node_decl (QuadTree i p w h nw ne sw se)
       # (case nw of None \<Rightarrow> []
          | Some c \<Rightarrow> edge_decl (QuadTree i p w h nw ne sw se) c ''NW'' # tree_lines c)
       @ (case ne of None \<Rightarrow> []
          | Some c \<Rightarrow> edge_decl (QuadTree i p w h nw ne sw se) c ''NE'' # tree_lines c)
       @ (case sw of None \<Rightarrow> []
          | Some c \<Rightarrow> edge_decl (QuadTree i p w h nw ne sw se) c ''SW'' # tree_lines c)
       @ (case se of None \<Rightarrow> []
          | Some c \<Rightarrow> edge_decl (QuadTree i p w h nw ne sw se) c ''SE'' # tree_lines c)"

definition unlines :: "string list \<Rightarrow> string" where
  "unlines ls = concat (map (\<lambda>l. l @ ''\<newline>'') ls)"

subsection \<open>The runs of \<^verbatim>\<open>subdivide\<close> as a relation\<close>

text \<open>
  \<open>grown t s t' s'\<close>: from the node \<open>t\<close> without children and the state \<open>s\<close>, \<^verbatim>\<open>subdivide\<close>
  returns the tree \<open>t'\<close> and the state \<open>s'\<close>. The relation serves rule induction; lemma
  \<open>subdivide_grown\<close> shows that every result of \<^verbatim>\<open>subdivide\<close> on such a node is in it.
\<close>

inductive grown :: "QuadTree \<Rightarrow> state \<Rightarrow> QuadTree \<Rightarrow> state \<Rightarrow> bool" where
  stop: "w \<le> 15 \<or> h \<le> 15 \<Longrightarrow>
         grown (leaf i p w h) s (leaf i p w h) (s\<lparr>cout := cout s @ diagnostic (leaf i p w h)\<rparr>)"
| split: "15 < w \<Longrightarrow> 15 < h \<Longrightarrow>
          grown (leaf (nextId s) p (w sdiv 2) (h sdiv 2))
            (s\<lparr>nextId := nextId s + 4,
               created := created s @ [nextId s, nextId s + 1, nextId s + 2, nextId s + 3]\<rparr>) nw s5 \<Longrightarrow>
          grown (leaf (nextId s + 1) \<lparr>x = x p + w sdiv 2, y = y p\<rparr> (w sdiv 2) (h sdiv 2)) s5 ne s6 \<Longrightarrow>
          grown (leaf (nextId s + 2) \<lparr>x = x p, y = y p + h sdiv 2\<rparr> (w sdiv 2) (h sdiv 2)) s6 sw s7 \<Longrightarrow>
          grown (leaf (nextId s + 3) \<lparr>x = x p + w sdiv 2, y = y p + h sdiv 2\<rparr> (w sdiv 2) (h sdiv 2)) s7 se s8 \<Longrightarrow>
          grown (leaf i p w h) s (QuadTree i p w h (Some nw) (Some ne) (Some sw) (Some se)) s8"

subsection \<open>A run from the initial state\<close>

text \<open>
  What \<^verbatim>\<open>main\<close> does with its root, for any region: construct the root from the initial
  state, then subdivide it.
\<close>

definition build :: "Point \<Rightarrow> int \<Rightarrow> int \<Rightarrow> QuadTree \<times> state" where
  "build p w h = (case new_QuadTree p w h init of (root, s) \<Rightarrow> subdivide root s)"

subsection \<open>A client of the class\<close>

text \<open>
  A process run is a sequence of calls from the initial state: constructing a root,
  \<^verbatim>\<open>subdivide\<close> on a root, \<^verbatim>\<open>toDotty\<close> on a root with the text written to the standard
  output as \<^verbatim>\<open>main\<close> does, and deleting a root, which frees its whole tree and leaves the
  counter alone. The roots the client holds are numbered by position; a call on a
  position that holds no root does nothing. \<^verbatim>\<open>main\<close> is the run of four calls: construct,
  subdivide, export, delete.
\<close>

datatype call = Construct Point int int | Subdivide nat | ToDotty nat | Destroy nat

fun step :: "call \<Rightarrow> state \<times> QuadTree list \<Rightarrow> state \<times> QuadTree list" where
  "step (Construct p w h) (s, roots) =
     (case new_QuadTree p w h s of (t, s') \<Rightarrow> (s', roots @ [t]))"
| "step (Subdivide k) (s, roots) =
     (if k < length roots
      then (case subdivide (roots ! k) s of (t, s') \<Rightarrow> (s', roots[k := t]))
      else (s, roots))"
| "step (ToDotty k) (s, roots) =
     (if k < length roots then (s\<lparr>cout := cout s @ toDotty (roots ! k)\<rparr>, roots)
      else (s, roots))"
| "step (Destroy k) (s, roots) =
     (if k < length roots then (s, take k roots @ drop (Suc k) roots) else (s, roots))"

definition run :: "call list \<Rightarrow> state \<times> QuadTree list" where
  "run cs = foldl (\<lambda>P c. step c P) (init, []) cs"

text \<open>
  The identities of a tree in preorder and of all trees the client holds, the property
  that every node has no child or four, and the invariant of a run.
\<close>

definition ids :: "QuadTree \<Rightarrow> int list" where
  "ids t = map id' (nodes t)"

definition live_ids :: "QuadTree list \<Rightarrow> int list" where
  "live_ids roots = concat (map ids roots)"

definition full_or_none :: "QuadTree \<Rightarrow> bool" where
  "full_or_none t =
     (\<forall>n \<in> set (nodes t). length (children n) = 0 \<or> length (children n) = 4)"

definition consistent :: "state \<times> QuadTree list \<Rightarrow> bool" where
  "consistent P =
     (case P of (s, roots) \<Rightarrow>
        0 \<le> nextId s \<and> created s = [0..nextId s - 1]
        \<and> distinct (live_ids roots) \<and> set (live_ids roots) \<subseteq> {0..nextId s - 1}
        \<and> (\<forall>t \<in> set roots. full_or_none t))"

subsection \<open>Examples\<close>

text \<open>
  The tree that \<^verbatim>\<open>subdivide\<close> builds from a 16 by 16 root at the origin, numbered from a
  counter at 0: one internal node and four leaves of 8 by 8.
\<close>

definition example16 :: QuadTree where
  "example16 =
     QuadTree 0 \<lparr>x = 0, y = 0\<rparr> 16 16
       (Some (leaf 1 \<lparr>x = 0, y = 0\<rparr> 8 8)) (Some (leaf 2 \<lparr>x = 8, y = 0\<rparr> 8 8))
       (Some (leaf 3 \<lparr>x = 0, y = 8\<rparr> 8 8)) (Some (leaf 4 \<lparr>x = 8, y = 8\<rparr> 8 8))"

section \<open>Lemmas\<close>

subsection \<open>The two branches of \<^verbatim>\<open>subdivide\<close>\<close>

lemma Point_eta [simp]: "\<lparr>x = x p, y = y p\<rparr> = (p::Point)"
  by (cases p) simp

lemma subdivide_guard:
  "width t \<le> 15 \<or> height t \<le> 15 \<or> northWest t \<noteq> None \<Longrightarrow>
   subdivide t s = (t, s\<lparr>cout := cout s @ diagnostic t\<rparr>)"
  by (simp add: subdivide.simps)

lemma subdivide_split:
  assumes "15 < width t" "15 < height t" "northWest t = None"
    and "subdivide (leaf (nextId s) (pos t) (width t sdiv 2) (height t sdiv 2))
           (s\<lparr>nextId := nextId s + 4,
              created := created s @ [nextId s, nextId s + 1, nextId s + 2, nextId s + 3]\<rparr>) = (nw, s5)"
    and "subdivide (leaf (nextId s + 1) \<lparr>x = x (pos t) + width t sdiv 2, y = y (pos t)\<rparr>
           (width t sdiv 2) (height t sdiv 2)) s5 = (ne, s6)"
    and "subdivide (leaf (nextId s + 2) \<lparr>x = x (pos t), y = y (pos t) + height t sdiv 2\<rparr>
           (width t sdiv 2) (height t sdiv 2)) s6 = (sw, s7)"
    and "subdivide (leaf (nextId s + 3)
           \<lparr>x = x (pos t) + width t sdiv 2, y = y (pos t) + height t sdiv 2\<rparr>
           (width t sdiv 2) (height t sdiv 2)) s7 = (se, s8)"
  shows "subdivide t s =
           (QuadTree (id' t) (pos t) (width t) (height t) (Some nw) (Some ne) (Some sw) (Some se), s8)"
  using assms
  by (subst subdivide.simps) (simp add: new_QuadTree_def Let_def add.commute)

lemma subdivide_grown:
  "grown (leaf i p w h) s (fst (subdivide (leaf i p w h) s)) (snd (subdivide (leaf i p w h) s))"
proof (induction "nat w" arbitrary: w i p h s rule: less_induct)
  case less
  show ?case
  proof (cases "w \<le> 15 \<or> h \<le> 15")
    case True
    then show ?thesis
      by (simp add: subdivide_guard grown.stop)
  next
    case False
    then have big: "15 < w" "15 < h" by auto
    then have smaller: "nat (w sdiv 2) < nat w"
      by (simp add: sdiv_two_above_floor)
    let ?cw = "w sdiv 2" and ?ch = "h sdiv 2" and ?n = "nextId s"
    let ?s4 = "s\<lparr>nextId := ?n + 4, created := created s @ [?n, ?n + 1, ?n + 2, ?n + 3]\<rparr>"
    obtain nw s5 where r1: "subdivide (leaf ?n p ?cw ?ch) ?s4 = (nw, s5)"
      by (cases "subdivide (leaf ?n p ?cw ?ch) ?s4")
    obtain ne s6 where r2: "subdivide (leaf (?n + 1) \<lparr>x = x p + ?cw, y = y p\<rparr> ?cw ?ch) s5 = (ne, s6)"
      by (cases "subdivide (leaf (?n + 1) \<lparr>x = x p + ?cw, y = y p\<rparr> ?cw ?ch) s5")
    obtain sw s7 where r3: "subdivide (leaf (?n + 2) \<lparr>x = x p, y = y p + ?ch\<rparr> ?cw ?ch) s6 = (sw, s7)"
      by (cases "subdivide (leaf (?n + 2) \<lparr>x = x p, y = y p + ?ch\<rparr> ?cw ?ch) s6")
    obtain se s8 where r4: "subdivide (leaf (?n + 3) \<lparr>x = x p + ?cw, y = y p + ?ch\<rparr> ?cw ?ch) s7 = (se, s8)"
      by (cases "subdivide (leaf (?n + 3) \<lparr>x = x p + ?cw, y = y p + ?ch\<rparr> ?cw ?ch) s7")
    have whole: "subdivide (leaf i p w h) s = (QuadTree i p w h (Some nw) (Some ne) (Some sw) (Some se), s8)"
      using subdivide_split [of "leaf i p w h" s nw s5 ne s6 sw s7 se s8] big r1 r2 r3 r4
      by simp
    have g1: "grown (leaf ?n p ?cw ?ch) ?s4 nw s5"
      using less [OF smaller, of ?n p ?ch ?s4] r1 by simp
    have g2: "grown (leaf (?n + 1) \<lparr>x = x p + ?cw, y = y p\<rparr> ?cw ?ch) s5 ne s6"
      using less [OF smaller, of "?n + 1" "\<lparr>x = x p + ?cw, y = y p\<rparr>" ?ch s5] r2 by simp
    have g3: "grown (leaf (?n + 2) \<lparr>x = x p, y = y p + ?ch\<rparr> ?cw ?ch) s6 sw s7"
      using less [OF smaller, of "?n + 2" "\<lparr>x = x p, y = y p + ?ch\<rparr>" ?ch s6] r3 by simp
    have g4: "grown (leaf (?n + 3) \<lparr>x = x p + ?cw, y = y p + ?ch\<rparr> ?cw ?ch) s7 se s8"
      using less [OF smaller, of "?n + 3" "\<lparr>x = x p + ?cw, y = y p + ?ch\<rparr>" ?ch s7] r4 by simp
    show ?thesis
      unfolding whole fst_conv snd_conv
      using grown.split [OF big g1 g2 g3 g4] .
  qed
qed

subsection \<open>Small numbers as text, and the 16 by 16 example\<close>

lemma dec_digit: "n < 10 \<Longrightarrow> dec n = [digit n]"
  by (simp add: dec.simps)

lemma dec_step: "10 \<le> n \<Longrightarrow> dec n = dec (n div 10) @ [digit (n mod 10)]"
  by (subst dec.simps) simp

lemma to_string_small:
  "to_string 0 = ''0''" "to_string 1 = ''1''" "to_string 2 = ''2''" "to_string 3 = ''3''"
  "to_string 4 = ''4''" "to_string 8 = ''8''" "to_string 16 = ''16''"
  by (simp_all add: to_string_def dec_digit dec_step digit_def)

lemma subdivide_fresh16:
  "subdivide (leaf 0 \<lparr>x = 0, y = 0\<rparr> 16 16) (init\<lparr>nextId := 1, created := [0]\<rparr>) =
     (example16,
      \<lparr>nextId = 5,
       cout = ''Node 1: Cannot subdivide further (Size=8x8). Marking as leaf.\<newline>''
           @ ''Node 2: Cannot subdivide further (Size=8x8). Marking as leaf.\<newline>''
           @ ''Node 3: Cannot subdivide further (Size=8x8). Marking as leaf.\<newline>''
           @ ''Node 4: Cannot subdivide further (Size=8x8). Marking as leaf.\<newline>'',
       created = [0, 1, 2, 3, 4]\<rparr>)"
  apply (subst subdivide.simps)
  apply (simp add: new_QuadTree_def Let_def init_def subdivide_guard diagnostic_def example16_def
      to_string_def dec_digit dec_step digit_def)
  done

subsection \<open>The tree that \<^verbatim>\<open>subdivide\<close> builds\<close>

text \<open>
  Each property of the built tree is proved by rule induction over \<open>grown\<close>: for a node
  that stops, and for a node with four children built by four smaller runs.
\<close>

lemma childless_leaf:
  "children t = [] \<Longrightarrow> t = leaf (id' t) (pos t) (width t) (height t)"
  by (cases t) (auto simp: children_def elim: opt_list.elims)

lemma subdivide_childless_grown:
  assumes "children t = []" and "subdivide t s = (t', s')"
  shows "grown t s t' s'"
proof -
  have "grown (leaf (id' t) (pos t) (width t) (height t)) s
          (fst (subdivide (leaf (id' t) (pos t) (width t) (height t)) s))
          (snd (subdivide (leaf (id' t) (pos t) (width t) (height t)) s))"
    by (rule subdivide_grown)
  with assms childless_leaf [of t] show ?thesis
    by simp
qed

lemma grown_root:
  "grown t s t' s' \<Longrightarrow>
   id' t' = id' t \<and> pos t' = pos t \<and> width t' = width t \<and> height t' = height t"
  by (induction rule: grown.induct) simp_all


lemma grown_full_or_none:
  "grown t s t' s' \<Longrightarrow>
   \<forall>n \<in> set (nodes t'). length (children n) = 0 \<or> length (children n) = 4"
  by (induction rule: grown.induct) (auto simp: children_def)




lemma inside_trans: "inside n c \<Longrightarrow> inside c t \<Longrightarrow> inside n t"
  by (auto simp: inside_def)

lemma grown_inside: "grown t s t' s' \<Longrightarrow> \<forall>n \<in> set (nodes t'). inside n t"
proof (induction rule: grown.induct)
  case (stop w h i p s)
  show ?case by (simp add: inside_def)
next
  case (split w h s p nw s5 ne s6 sw s7 se s8 i)
  let ?t = "leaf i p w h"
  have cw: "0 \<le> w sdiv 2" "2 * (w sdiv 2) \<le> w"
    using split(1) by (simp_all add: sdiv_two_above_floor)
  have ch: "0 \<le> h sdiv 2" "2 * (h sdiv 2) \<le> h"
    using split(2) by (simp_all add: sdiv_two_above_floor)
  have q: "inside (leaf (nextId s) p (w sdiv 2) (h sdiv 2)) ?t"
    "inside (leaf (nextId s + 1) \<lparr>x = x p + w sdiv 2, y = y p\<rparr> (w sdiv 2) (h sdiv 2)) ?t"
    "inside (leaf (nextId s + 2) \<lparr>x = x p, y = y p + h sdiv 2\<rparr> (w sdiv 2) (h sdiv 2)) ?t"
    "inside (leaf (nextId s + 3) \<lparr>x = x p + w sdiv 2, y = y p + h sdiv 2\<rparr>
       (w sdiv 2) (h sdiv 2)) ?t"
    using cw ch by (simp_all add: inside_def)
  have "inside (QuadTree i p w h (Some nw) (Some ne) (Some sw) (Some se)) ?t"
    by (simp add: inside_def)
  moreover have "\<forall>n \<in> set (nodes nw). inside n ?t" "\<forall>n \<in> set (nodes ne). inside n ?t"
    "\<forall>n \<in> set (nodes sw). inside n ?t" "\<forall>n \<in> set (nodes se). inside n ?t"
    using split.IH q by (blast intro: inside_trans)+
  ultimately show ?case
    by auto
qed

lemma subdivide_inside:
  "children t = [] \<Longrightarrow> subdivide t s = (t', s') \<Longrightarrow> \<forall>n \<in> set (nodes t'). inside n t"
  by (rule grown_inside) (rule subdivide_childless_grown)

lemma upto_join: "i \<le> j \<Longrightarrow> j \<le> k \<Longrightarrow> [i..j - 1] @ [j..k - 1] = [i..k - 1]"
  using upto_split1 [of i j "k - 1"] by (cases "j = k") (auto simp: upto_rec2)

lemma grown_ids:
  "grown t s t' s' \<Longrightarrow>
   nextId s \<le> nextId s' \<and> map id' (expansion t') = [nextId s..nextId s' - 1]
     \<and> created s' = created s @ map id' (expansion t')"
proof (induction rule: grown.induct)
  case (stop w h i p s)
  then show ?case by simp
next
  case (split w h s p nw s5 ne s6 sw s7 se s8 i)
  let ?n = "nextId s"
  have roots: "id' nw = ?n" "id' ne = ?n + 1" "id' sw = ?n + 2" "id' se = ?n + 3"
    using grown_root [OF split(3)] grown_root [OF split(4)]
      grown_root [OF split(5)] grown_root [OF split(6)]
    by simp_all
  have le: "?n + 4 \<le> nextId s5" "nextId s5 \<le> nextId s6" "nextId s6 \<le> nextId s7"
    "nextId s7 \<le> nextId s8"
    using split.IH by simp_all
  have first: "[?n, ?n + 1, ?n + 2, ?n + 3] = [?n..?n + 4 - 1]"
    by (simp add: upto_rec1)
  have n4: "?n \<le> ?n + 4" by simp
  have j1: "[?n..?n + 4 - 1] @ [?n + 4..nextId s5 - 1] = [?n..nextId s5 - 1]"
    using n4 le(1) by (rule upto_join)
  have j2: "[?n..nextId s5 - 1] @ [nextId s5..nextId s6 - 1] = [?n..nextId s6 - 1]"
    using le by (intro upto_join) simp_all
  have j3: "[?n..nextId s6 - 1] @ [nextId s6..nextId s7 - 1] = [?n..nextId s7 - 1]"
    using le by (intro upto_join) simp_all
  have j4: "[?n..nextId s7 - 1] @ [nextId s7..nextId s8 - 1] = [?n..nextId s8 - 1]"
    using le by (intro upto_join) simp_all
  have "[?n, ?n + 1, ?n + 2, ?n + 3] @ [?n + 4..nextId s5 - 1] @ [nextId s5..nextId s6 - 1]
          @ [nextId s6..nextId s7 - 1] @ [nextId s7..nextId s8 - 1]
        = ((([?n..?n + 4 - 1] @ [?n + 4..nextId s5 - 1]) @ [nextId s5..nextId s6 - 1])
          @ [nextId s6..nextId s7 - 1]) @ [nextId s7..nextId s8 - 1]"
    by (simp only: first append_assoc)
  also have "\<dots> = [?n..nextId s8 - 1]"
    by (simp only: j1 j2 j3 j4)
  finally have "[?n, ?n + 1, ?n + 2, ?n + 3] @ [?n + 4..nextId s5 - 1]
          @ [nextId s5..nextId s6 - 1] @ [nextId s6..nextId s7 - 1]
          @ [nextId s7..nextId s8 - 1] = [?n..nextId s8 - 1]" .
  then have ids: "map id' (expansion (QuadTree i p w h (Some nw) (Some ne) (Some sw) (Some se)))
                    = [?n..nextId s8 - 1]"
    using split.IH roots by simp
  have log: "created s8 = created s
               @ map id' (expansion (QuadTree i p w h (Some nw) (Some ne) (Some sw) (Some se)))"
    using split.IH roots by simp
  from le ids log show ?case
    by simp
qed



lemma example16_nodes:
  "nodes example16 =
     [example16, leaf 1 \<lparr>x = 0, y = 0\<rparr> 8 8, leaf 2 \<lparr>x = 8, y = 0\<rparr> 8 8,
      leaf 3 \<lparr>x = 0, y = 8\<rparr> 8 8, leaf 4 \<lparr>x = 8, y = 8\<rparr> 8 8]"
  by (simp add: example16_def)

subsection \<open>The export, line by line\<close>

text \<open>
  \<^verbatim>\<open>toDottyRecursive\<close> appends to the stream the lines of \<open>tree_lines\<close>, each ended by a
  newline. No line holds a newline itself, since a number is written with digits and a
  minus sign only, so reading the text back as lines gives the same lines.
\<close>

lemma unlines_simps [simp]:
  "unlines [] = []" "unlines (l # ls) = l @ ''\<newline>'' @ unlines ls"
  "unlines (ks @ ls) = unlines ks @ unlines ls"
  by (simp_all add: unlines_def)

lemma toDottyRecursive_lines: "toDottyRecursive t ss = ss @ unlines (tree_lines t)"
proof (induction t arbitrary: ss)
  case (QuadTree i p w h nw ne sw se)
  show ?case
    by (cases nw; cases ne; cases sw; cases se)
       (simp_all add: QuadTree.IH node_decl_def edge_decl_def Let_def)
qed

lemma lines_from_line:
  "CHR ''\<newline>'' \<notin> set l \<Longrightarrow>
   lines_from cur (l @ CHR ''\<newline>'' # rest) = (cur @ l) # lines_from [] rest"
  by (induction l arbitrary: cur) auto

lemma lines_from_unlines:
  "\<forall>l \<in> set ls. CHR ''\<newline>'' \<notin> set l \<Longrightarrow>
   lines_from [] (unlines ls @ rest) = ls @ lines_from [] rest"
  by (induction ls) (simp_all add: lines_from_line)

lemma split_lines_unlines:
  "\<forall>l \<in> set ls. CHR ''\<newline>'' \<notin> set l \<Longrightarrow> split_lines (unlines ls) = ls"
  using lines_from_unlines [of ls "[]"] by (simp add: split_lines_def)

lemma digit_range: "d < 10 \<Longrightarrow> digit d \<in> set ''0123456789''"
  unfolding digit_def by (rule nth_mem) simp

lemma dec_chars: "set (dec n) \<subseteq> set ''0123456789''"
proof (induction n rule: dec.induct)
  case (1 n)
  show ?case
  proof (cases "n < 10")
    case True
    then show ?thesis
      using digit_range [of n] by (simp add: dec_digit)
  next
    case False
    have "digit (n mod 10) \<in> set ''0123456789''"
      by (rule digit_range) simp
    with False 1 show ?thesis
      by (simp add: dec_step)
  qed
qed

lemma to_string_chars: "set (to_string i) \<subseteq> set ''-0123456789''"
proof (cases "i < 0")
  case True
  then have "set (to_string i) = insert CHR ''-'' (set (dec (nat (- i))))"
    by (simp add: to_string_def)
  also have "\<dots> \<subseteq> insert CHR ''-'' (set ''0123456789'')"
    by (rule insert_mono) (rule dec_chars)
  finally show ?thesis
    by (simp only: list.set)
next
  case False
  then have "set (to_string i) = set (dec (nat i))"
    by (simp add: to_string_def)
  also have "\<dots> \<subseteq> set ''0123456789''"
    by (rule dec_chars)
  also have "\<dots> \<subseteq> set ''-0123456789''"
    by (rule set_subset_Cons)
  finally show ?thesis .
qed

lemma to_string_plain [simp]:
  "CHR ''\<newline>'' \<notin> set (to_string i)" "CHR ''>'' \<notin> set (to_string i)"
proof -
  have "CHR ''\<newline>'' \<notin> set ''-0123456789''" "CHR ''>'' \<notin> set ''-0123456789''"
    by simp_all
  then show "CHR ''\<newline>'' \<notin> set (to_string i)" "CHR ''>'' \<notin> set (to_string i)"
    using to_string_chars [of i] by blast+
qed

lemma node_decl_plain [simp]:
  "CHR ''\<newline>'' \<notin> set (node_decl t)" "CHR ''>'' \<notin> set (node_decl t)"
  by (simp_all add: node_decl_def toString_def dquote_def bslash_def)

lemma edge_decl_plain [simp]:
  "CHR ''\<newline>'' \<notin> set l \<Longrightarrow> CHR ''\<newline>'' \<notin> set (edge_decl t c l)"
  by (simp add: edge_decl_def dquote_def)

lemma tree_lines_plain: "\<forall>l \<in> set (tree_lines t). CHR ''\<newline>'' \<notin> set l"
proof (induction t)
  case (QuadTree i p w h nw ne sw se)
  show ?case
    by (cases nw; cases ne; cases sw; cases se) (use QuadTree.IH in auto)
qed

lemma no_gt_no_arrow: "CHR ''>'' \<notin> set s \<Longrightarrow> \<not> has_arrow s"
  by (induction s rule: has_arrow.induct) auto

lemma has_arrow_append: "has_arrow (xs @ ''->'' @ ys)"
proof (induction xs)
  case Nil
  show ?case by simp
next
  case (Cons a xs)
  then show ?case
    by (cases xs) auto
qed

lemma edge_decl_arrow [simp]: "has_arrow (edge_decl t c l)"
proof -
  have "edge_decl t c l = (''  node_'' @ to_string (id' t) @ '' '') @ ''->''
          @ ('' node_'' @ to_string (id' c) @ '' [label='' @ dquote @ l @ dquote @ ''];'')"
    by (simp add: edge_decl_def)
  then show ?thesis
    by (simp only: has_arrow_append)
qed

lemma node_decl_no_arrow [simp]: "\<not> has_arrow (node_decl t)"
  by (rule no_gt_no_arrow) simp

lemma edge_count: "length (filter has_arrow (tree_lines t)) + 1 = length (nodes t)"
proof (induction t)
  case (QuadTree i p w h nw ne sw se)
  show ?case
    by (cases nw; cases ne; cases sw; cases se) (use QuadTree.IH in auto)
qed

lemma toDotty_lines:
  "split_lines (toDotty t) =
     ''digraph QuadTree {'' # ''  node [shape=box, style=filled, fillcolor=lightblue];''
       # tree_lines t @ [''}'']"
proof -
  have "toDotty t = unlines (''digraph QuadTree {''
          # ''  node [shape=box, style=filled, fillcolor=lightblue];'' # tree_lines t @ [''}''])"
    by (simp add: toDotty_def toDottyRecursive_lines)
  moreover have "\<forall>l \<in> set (''digraph QuadTree {''
          # ''  node [shape=box, style=filled, fillcolor=lightblue];'' # tree_lines t @ [''}'']).
        CHR ''\<newline>'' \<notin> set l"
    using tree_lines_plain [of t] by auto
  ultimately show ?thesis
    by (simp only: split_lines_unlines)
qed

lemma toDottyRecursive_split_lines: "split_lines (toDottyRecursive t []) = tree_lines t"
  using tree_lines_plain [of t] by (simp add: toDottyRecursive_lines split_lines_unlines)

lemma set_opt_list [simp]: "set (opt_list oc) = set_option oc"
  by (cases oc) simp_all

lemma nodes_cases:
  "n \<in> set (nodes t) \<Longrightarrow> n = t \<or> (\<exists>c \<in> set (children t). n \<in> set (nodes c))"
  by (cases t) (auto simp: children_def split: option.splits)

lemma tree_lines_child:
  assumes "c \<in> set (children t)"
  shows "\<exists>A B. tree_lines t = A @ tree_lines c @ B"
proof (cases t)
  case (QuadTree i p w h nw ne sw se)
  from assms consider "nw = Some c" | "ne = Some c" | "sw = Some c" | "se = Some c"
    by (auto simp: children_def QuadTree)
  then show ?thesis
  proof cases
    case 1
    have "tree_lines t = [node_decl t, edge_decl t c ''NW''] @ tree_lines c
            @ ((case ne of None \<Rightarrow> [] | Some d \<Rightarrow> edge_decl t d ''NE'' # tree_lines d)
               @ (case sw of None \<Rightarrow> [] | Some d \<Rightarrow> edge_decl t d ''SW'' # tree_lines d)
               @ (case se of None \<Rightarrow> [] | Some d \<Rightarrow> edge_decl t d ''SE'' # tree_lines d))"
      unfolding QuadTree 1 by simp
    then show ?thesis by blast
  next
    case 2
    have "tree_lines t =
            (node_decl t
               # (case nw of None \<Rightarrow> [] | Some d \<Rightarrow> edge_decl t d ''NW'' # tree_lines d)
               @ [edge_decl t c ''NE'']) @ tree_lines c
            @ ((case sw of None \<Rightarrow> [] | Some d \<Rightarrow> edge_decl t d ''SW'' # tree_lines d)
               @ (case se of None \<Rightarrow> [] | Some d \<Rightarrow> edge_decl t d ''SE'' # tree_lines d))"
      unfolding QuadTree 2 by simp
    then show ?thesis by blast
  next
    case 3
    have "tree_lines t =
            (node_decl t
               # (case nw of None \<Rightarrow> [] | Some d \<Rightarrow> edge_decl t d ''NW'' # tree_lines d)
               @ (case ne of None \<Rightarrow> [] | Some d \<Rightarrow> edge_decl t d ''NE'' # tree_lines d)
               @ [edge_decl t c ''SW'']) @ tree_lines c
            @ (case se of None \<Rightarrow> [] | Some d \<Rightarrow> edge_decl t d ''SE'' # tree_lines d)"
      unfolding QuadTree 3 by simp
    then show ?thesis by blast
  next
    case 4
    have "tree_lines t =
            (node_decl t
               # (case nw of None \<Rightarrow> [] | Some d \<Rightarrow> edge_decl t d ''NW'' # tree_lines d)
               @ (case ne of None \<Rightarrow> [] | Some d \<Rightarrow> edge_decl t d ''NE'' # tree_lines d)
               @ (case sw of None \<Rightarrow> [] | Some d \<Rightarrow> edge_decl t d ''SW'' # tree_lines d)
               @ [edge_decl t c ''SE'']) @ tree_lines c @ []"
      unfolding QuadTree 4 by simp
    then show ?thesis by blast
  qed
qed

lemma tree_lines_node:
  "n \<in> set (nodes t) \<Longrightarrow> \<exists>pre post. tree_lines t = pre @ tree_lines n @ post"
proof (induction t)
  case (QuadTree i p w h nw ne sw se)
  let ?t = "QuadTree i p w h nw ne sw se"
  from nodes_cases [OF QuadTree.prems]
  consider "n = ?t" | c where "c \<in> set (children ?t)" "n \<in> set (nodes c)"
    by blast
  then show ?case
  proof cases
    case 1
    then have "tree_lines ?t = [] @ tree_lines n @ []" by simp
    then show ?thesis by blast
  next
    case 2
    from 2(1) have "c \<in> set_option nw \<or> c \<in> set_option ne \<or> c \<in> set_option sw
        \<or> c \<in> set_option se"
      by (simp add: children_def)
    with QuadTree.IH 2(2) obtain pre post where a: "tree_lines c = pre @ tree_lines n @ post"
      by blast
    from tree_lines_child [OF 2(1)] obtain A B where b: "tree_lines ?t = A @ tree_lines c @ B"
      by blast
    from a b have "tree_lines ?t = (A @ pre) @ tree_lines n @ (post @ B)"
      by simp
    then show ?thesis by blast
  qed
qed

lemma tree_lines_four:
  assumes "northWest n = Some nw" "northEast n = Some ne"
    and "southWest n = Some sw" "southEast n = Some se"
  shows "tree_lines n =
           [node_decl n, edge_decl n nw ''NW''] @ tree_lines nw
           @ [edge_decl n ne ''NE''] @ tree_lines ne
           @ [edge_decl n sw ''SW''] @ tree_lines sw
           @ [edge_decl n se ''SE''] @ tree_lines se"
  using assms by (cases n) simp

lemma hd_tree_lines: "hd (tree_lines t) = node_decl t"
  by (cases t) simp

lemma example16_children:
  "northWest example16 = Some (leaf 1 \<lparr>x = 0, y = 0\<rparr> 8 8)"
  "northEast example16 = Some (leaf 2 \<lparr>x = 8, y = 0\<rparr> 8 8)"
  "southWest example16 = Some (leaf 3 \<lparr>x = 0, y = 8\<rparr> 8 8)"
  "southEast example16 = Some (leaf 4 \<lparr>x = 8, y = 8\<rparr> 8 8)"
  by (simp_all add: example16_def)

subsection \<open>Identities in a run from the initial state\<close>

lemma construction_order_mset: "mset (t # expansion t) = mset (nodes t)"
proof (induction t)
  case (QuadTree i p w h nw ne sw se)
  show ?case
    by (cases nw; cases ne; cases sw; cases se) (use QuadTree.IH [symmetric] in auto)
qed

lemma build_grown:
  assumes "build p w h = (t, s)"
  shows "grown (leaf 0 p w h) (init\<lparr>nextId := 1, created := [0]\<rparr>) t s"
proof -
  have "subdivide (leaf 0 p w h) (init\<lparr>nextId := 1, created := [0]\<rparr>) = (t, s)"
    using assms by (simp add: build_def new_QuadTree_def init_def)
  moreover have "children (leaf 0 p w h) = []"
    by (simp add: children_def)
  ultimately show ?thesis
    by (rule subdivide_childless_grown [rotated])
qed

lemma build_ids:
  assumes "build p w h = (t, s)"
  shows "map id' (construction_order t) = [0..nextId s - 1]"
    and "created s = [0..nextId s - 1]"
    and "0 < nextId s"
proof -
  note g = build_grown [OF assms]
  have r: "id' t = 0"
    using grown_root [OF g] by simp
  have i: "1 \<le> nextId s" "map id' (expansion t) = [1..nextId s - 1]"
    "created s = [0] @ map id' (expansion t)"
    using grown_ids [OF g] by (simp_all add: init_def)
  have u: "[0..nextId s - 1] = 0 # [1..nextId s - 1]"
    using i(1) by (simp add: upto_rec1)
  show "map id' (construction_order t) = [0..nextId s - 1]"
    by (simp add: construction_order_def r i(2) u)
  show "created s = [0..nextId s - 1]"
    by (simp add: i(2,3) u)
  show "0 < nextId s"
    using i(1) by simp
qed

lemma build_count:
  assumes "build p w h = (t, s)"
  shows "int (length (nodes t)) = nextId s"
proof -
  have "length (nodes t) = length (construction_order t)"
    using construction_order_mset [of t]
    by (metis construction_order_def mset_eq_length)
  also have "\<dots> = length (map id' (construction_order t))"
    by simp
  also have "\<dots> = nat (nextId s)"
    by (simp add: build_ids(1) [OF assms])
  finally show ?thesis
    using build_ids(3) [OF assms] by simp
qed

lemma build_id_set:
  assumes "build p w h = (t, s)"
  shows "set (map id' (nodes t)) = {0..nextId s - 1}" and "distinct (map id' (nodes t))"
proof -
  have m: "mset (map id' (nodes t)) = mset [0..nextId s - 1]"
    using construction_order_mset [of t] build_ids(1) [OF assms]
    by (metis construction_order_def mset_map)
  show "set (map id' (nodes t)) = {0..nextId s - 1}"
    using mset_eq_setD [OF m] by simp
  show "distinct (map id' (nodes t))"
    using mset_eq_imp_distinct_iff [OF m] by simp
qed

lemma build_edges:
  "length (filter has_arrow (split_lines (toDotty t))) + 1 = length (nodes t)"
proof -
  have "\<not> has_arrow ''digraph QuadTree {''"
    "\<not> has_arrow ''  node [shape=box, style=filled, fillcolor=lightblue];''"
    "\<not> has_arrow ''}''"
    by (rule no_gt_no_arrow, simp)+
  then show ?thesis
    using edge_count [of t] by (simp add: toDotty_lines)
qed

subsection \<open>Running the examples\<close>

text \<open>
  The recursive branch as one equation, for the simplifier to run \<^verbatim>\<open>subdivide\<close> on a
  root of 32 by 32 and on the root of 100 by 100 of \<^verbatim>\<open>main\<close>.
\<close>

lemma subdivide_unfold:
  assumes "15 < width t" and "15 < height t" and "northWest t = None"
  shows "subdivide t s =
     (case subdivide (leaf (nextId s) (pos t) (width t sdiv 2) (height t sdiv 2))
             (s\<lparr>nextId := nextId s + 4,
                created := created s @ [nextId s, nextId s + 1, nextId s + 2, nextId s + 3]\<rparr>) of
        (nw, s5) \<Rightarrow>
      case subdivide (leaf (nextId s + 1) \<lparr>x = x (pos t) + width t sdiv 2, y = y (pos t)\<rparr>
             (width t sdiv 2) (height t sdiv 2)) s5 of
        (ne, s6) \<Rightarrow>
      case subdivide (leaf (nextId s + 2) \<lparr>x = x (pos t), y = y (pos t) + height t sdiv 2\<rparr>
             (width t sdiv 2) (height t sdiv 2)) s6 of
        (sw, s7) \<Rightarrow>
      case subdivide (leaf (nextId s + 3)
             \<lparr>x = x (pos t) + width t sdiv 2, y = y (pos t) + height t sdiv 2\<rparr>
             (width t sdiv 2) (height t sdiv 2)) s7 of
        (se, s8) \<Rightarrow>
          (QuadTree (id' t) (pos t) (width t) (height t) (Some nw) (Some ne) (Some sw) (Some se),
           s8))"
proof -
  let ?cw = "width t sdiv 2" and ?ch = "height t sdiv 2" and ?n = "nextId s"
  obtain nw s5 where r1: "subdivide (leaf ?n (pos t) ?cw ?ch)
      (s\<lparr>nextId := ?n + 4, created := created s @ [?n, ?n + 1, ?n + 2, ?n + 3]\<rparr>) = (nw, s5)"
    by (rule prod.exhaust)
  obtain ne s6 where r2: "subdivide (leaf (?n + 1) \<lparr>x = x (pos t) + ?cw, y = y (pos t)\<rparr>
      ?cw ?ch) s5 = (ne, s6)"
    by (rule prod.exhaust)
  obtain sw s7 where r3: "subdivide (leaf (?n + 2) \<lparr>x = x (pos t), y = y (pos t) + ?ch\<rparr>
      ?cw ?ch) s6 = (sw, s7)"
    by (rule prod.exhaust)
  obtain se s8 where r4: "subdivide (leaf (?n + 3)
      \<lparr>x = x (pos t) + ?cw, y = y (pos t) + ?ch\<rparr> ?cw ?ch) s7 = (se, s8)"
    by (rule prod.exhaust)
  show ?thesis
    by (simp only: subdivide_split [OF assms r1 r2 r3 r4] r1 r2 r3 r4 prod.case)
qed


lemma build100_counter: "nextId (snd (build \<lparr>x = 0, y = 0\<rparr> 100 100)) = 85"
  by (simp add: build_def new_QuadTree_def init_def subdivide_unfold subdivide_guard
      signed_divide_int_def)

lemma build16:
  "build \<lparr>x = 0, y = 0\<rparr> 16 16 =
     (example16,
      \<lparr>nextId = 5,
       cout = ''Node 1: Cannot subdivide further (Size=8x8). Marking as leaf.\<newline>''
           @ ''Node 2: Cannot subdivide further (Size=8x8). Marking as leaf.\<newline>''
           @ ''Node 3: Cannot subdivide further (Size=8x8). Marking as leaf.\<newline>''
           @ ''Node 4: Cannot subdivide further (Size=8x8). Marking as leaf.\<newline>'',
       created = [0, 1, 2, 3, 4]\<rparr>)"
  using subdivide_fresh16 by (simp add: build_def new_QuadTree_def init_def)

lemma build100_widths:
  "map width (nodes (fst (build \<lparr>x = 0, y = 0\<rparr> 100 100))) =
     [100, 50, 25, 12, 12, 12, 12, 25, 12, 12, 12, 12, 25, 12, 12, 12, 12, 25, 12, 12, 12, 12,
      50, 25, 12, 12, 12, 12, 25, 12, 12, 12, 12, 25, 12, 12, 12, 12, 25, 12, 12, 12, 12,
      50, 25, 12, 12, 12, 12, 25, 12, 12, 12, 12, 25, 12, 12, 12, 12, 25, 12, 12, 12, 12,
      50, 25, 12, 12, 12, 12, 25, 12, 12, 12, 12, 25, 12, 12, 12, 12, 25, 12, 12, 12, 12]"
  by (simp add: build_def new_QuadTree_def init_def subdivide_unfold subdivide_guard
      signed_divide_int_def)

subsection \<open>The invariant of a process run\<close>

lemma root_in_nodes: "t \<in> set (nodes t)"
  by (cases t) simp

lemma no_north_west_childless:
  assumes "northWest t = None"
    and "length (children t) = 0 \<or> length (children t) = 4"
  shows "children t = []"
  using assms
  by (cases "northEast t"; cases "southWest t"; cases "southEast t") (auto simp: children_def)

lemma childless_nodes: "children t = [] \<Longrightarrow> nodes t = [t]"
  by (cases t) (auto simp: children_def split: option.splits)

lemma grown_id_list:
  assumes "grown t s t' s'"
  shows "mset (ids t') = mset (id' t # [nextId s..nextId s' - 1])"
proof -
  have "mset (ids t') = mset (map id' (t' # expansion t'))"
    unfolding ids_def using construction_order_mset [of t'] by (metis mset_map)
  also have "\<dots> = mset (id' t # [nextId s..nextId s' - 1])"
    using grown_root [OF assms] grown_ids [OF assms] by simp
  finally show ?thesis .
qed

lemma subdivide_consistent:
  assumes fon: "full_or_none t"
    and below: "set (ids t) \<subseteq> {0..nextId s - 1}"
    and dist: "distinct (ids t)"
    and log: "created s = [0..nextId s - 1]"
    and nonneg: "0 \<le> nextId s"
    and run: "subdivide t s = (t', s')"
  shows "full_or_none t' \<and> nextId s \<le> nextId s' \<and> created s' = [0..nextId s' - 1]
         \<and> distinct (ids t') \<and> set (ids t') \<subseteq> set (ids t) \<union> {nextId s..nextId s' - 1}"
proof (cases "width t \<le> 15 \<or> height t \<le> 15 \<or> northWest t \<noteq> None")
  case True
  then have "subdivide t s = (t, s\<lparr>cout := cout s @ diagnostic t\<rparr>)"
    by (rule subdivide_guard)
  with run have "t' = t" "s' = s\<lparr>cout := cout s @ diagnostic t\<rparr>"
    by auto
  then show ?thesis
    using fon dist log by simp
next
  case False
  then have "northWest t = None" by simp
  moreover have "length (children t) = 0 \<or> length (children t) = 4"
    using fon root_in_nodes [of t] unfolding full_or_none_def by blast
  ultimately have childless: "children t = []"
    by (rule no_north_west_childless)
  then have g: "grown t s t' s'"
    using run by (rule subdivide_childless_grown)
  have le: "nextId s \<le> nextId s'"
    and log': "created s' = created s @ [nextId s..nextId s' - 1]"
    using grown_ids [OF g] by simp_all
  have a: "full_or_none t'"
    unfolding full_or_none_def using g by (rule grown_full_or_none)
  have b: "created s' = [0..nextId s' - 1]"
    unfolding log' log using nonneg le by (rule upto_join)
  have root: "id' t < nextId s"
    using below root_in_nodes [of t] by (auto simp: ids_def)
  have m: "mset (ids t') = mset (id' t # [nextId s..nextId s' - 1])"
    using g by (rule grown_id_list)
  have "distinct (id' t # [nextId s..nextId s' - 1])"
    using root by simp
  then have c: "distinct (ids t')"
    using mset_eq_imp_distinct_iff [OF m] by simp
  have "set (ids t') = set (id' t # [nextId s..nextId s' - 1])"
    using m by (rule mset_eq_setD)
  then have d: "set (ids t') \<subseteq> set (ids t) \<union> {nextId s..nextId s' - 1}"
    using childless_nodes [OF childless] by (simp add: ids_def)
  from a le b c d show ?thesis
    by blast
qed

lemma live_ids_simps [simp]:
  "live_ids [] = []" "live_ids (t # ts) = ids t @ live_ids ts"
  "live_ids (as @ bs) = live_ids as @ live_ids bs"
  by (simp_all add: live_ids_def)

lemma step_consistent:
  assumes "consistent P"
  shows "consistent (step c P) \<and> nextId (fst P) \<le> nextId (fst (step c P))"
proof -
  obtain s roots where P: "P = (s, roots)"
    by (rule prod.exhaust)
  from assms have nonneg: "0 \<le> nextId s" and log: "created s = [0..nextId s - 1]"
    and dist: "distinct (live_ids roots)" and below: "set (live_ids roots) \<subseteq> {0..nextId s - 1}"
    and fon: "\<forall>t \<in> set roots. full_or_none t"
    by (simp_all add: consistent_def P)
  show ?thesis
  proof (cases c)
    case (Construct p w h)
    have "[0..nextId s - 1] @ [nextId s] = [0..nextId s]"
      using nonneg upto_rec2 [of 0 "nextId s"] by simp
    moreover have "full_or_none (leaf (nextId s) p w h)"
      by (simp add: full_or_none_def children_def)
    ultimately show ?thesis
      using nonneg log dist below fon
      by (auto simp: consistent_def P Construct new_QuadTree_def ids_def)
  next
    case (Subdivide k)
    show ?thesis
    proof (cases "k < length roots")
      case False
      then show ?thesis
        using assms by (simp add: P Subdivide)
    next
      case True
      let ?A = "take k roots" and ?B = "drop (Suc k) roots" and ?t = "roots ! k"
      have split: "roots = ?A @ ?t # ?B"
        using True by (rule id_take_nth_drop)
      obtain t' s' where r: "subdivide ?t s = (t', s')"
        by (rule prod.exhaust)
      have upd: "roots[k := t'] = ?A @ t' # ?B"
        using True by (rule upd_conv_take_nth_drop)
      have li: "live_ids roots = live_ids ?A @ ids ?t @ live_ids ?B"
        using arg_cong [OF split, of live_ids] by simp
      have parts: "distinct (live_ids ?A @ ids ?t @ live_ids ?B)"
        "set (live_ids ?A @ ids ?t @ live_ids ?B) \<subseteq> {0..nextId s - 1}"
        using dist below unfolding li by simp_all
      have fon_parts: "\<forall>t \<in> set ?A. full_or_none t" "full_or_none ?t"
        "\<forall>t \<in> set ?B. full_or_none t"
        using fon True by (auto dest: in_set_takeD in_set_dropD)
      have sub: "full_or_none t' \<and> nextId s \<le> nextId s' \<and> created s' = [0..nextId s' - 1]
         \<and> distinct (ids t') \<and> set (ids t') \<subseteq> set (ids ?t) \<union> {nextId s..nextId s' - 1}"
        using fon_parts(2) _ _ log nonneg r
        by (rule subdivide_consistent) (use parts in auto)
      have old: "\<forall>i \<in> set (live_ids ?A) \<union> set (ids ?t) \<union> set (live_ids ?B). 0 \<le> i \<and> i < nextId s"
        using parts(2) by auto
      have new: "\<forall>i \<in> set (ids t'). i \<in> set (ids ?t) \<or> (nextId s \<le> i \<and> i < nextId s')"
        using sub by auto
      have "set (live_ids ?A) \<inter> set (ids t') = {}"
      proof (rule ccontr)
        assume "set (live_ids ?A) \<inter> set (ids t') \<noteq> {}"
        then obtain i where i: "i \<in> set (live_ids ?A)" "i \<in> set (ids t')"
          by blast
        from i(2) new have "i \<in> set (ids ?t) \<or> nextId s \<le> i" by blast
        moreover from i(1) parts(1) have "i \<notin> set (ids ?t)" by auto
        moreover from i(1) old have "i < nextId s" by blast
        ultimately show False by simp
      qed
      moreover have "set (ids t') \<inter> set (live_ids ?B) = {}"
      proof (rule ccontr)
        assume "set (ids t') \<inter> set (live_ids ?B) \<noteq> {}"
        then obtain i where i: "i \<in> set (live_ids ?B)" "i \<in> set (ids t')"
          by blast
        from i(2) new have "i \<in> set (ids ?t) \<or> nextId s \<le> i" by blast
        moreover from i(1) parts(1) have "i \<notin> set (ids ?t)" by auto
        moreover from i(1) old have "i < nextId s" by blast
        ultimately show False by simp
      qed
      moreover have "set (live_ids ?A) \<inter> set (live_ids ?B) = {}"
        using parts(1) by auto
      ultimately have "distinct (live_ids ?A @ ids t' @ live_ids ?B)"
        using parts(1) sub by (simp add: Int_Un_distrib Int_Un_distrib2)
      moreover have "set (live_ids ?A @ ids t' @ live_ids ?B) \<subseteq> {0..nextId s' - 1}"
      proof
        fix i assume "i \<in> set (live_ids ?A @ ids t' @ live_ids ?B)"
        then have "i \<in> set (live_ids ?A) \<union> set (ids ?t) \<union> set (live_ids ?B)
            \<or> (nextId s \<le> i \<and> i < nextId s')"
          using new by auto
        then show "i \<in> {0..nextId s' - 1}"
        proof
          assume "i \<in> set (live_ids ?A) \<union> set (ids ?t) \<union> set (live_ids ?B)"
          with old have "0 \<le> i \<and> i < nextId s" by blast
          moreover from sub have "nextId s \<le> nextId s'" by blast
          ultimately show ?thesis by simp
        next
          assume "nextId s \<le> i \<and> i < nextId s'"
          with nonneg show ?thesis by simp
        qed
      qed
      moreover have "\<forall>t \<in> set (?A @ t' # ?B). full_or_none t"
        using fon_parts sub by auto
      ultimately have "consistent (s', ?A @ t' # ?B)"
        using sub nonneg by (simp add: consistent_def)
      then show ?thesis
        using sub True by (simp add: P Subdivide r upd)
    qed
  next
    case (ToDotty k)
    then show ?thesis
      using assms by (simp add: P consistent_def)
  next
    case (Destroy k)
    show ?thesis
    proof (cases "k < length roots")
      case False
      then show ?thesis
        using assms by (simp add: P Destroy)
    next
      case True
      let ?A = "take k roots" and ?B = "drop (Suc k) roots" and ?t = "roots ! k"
      have split: "roots = ?A @ ?t # ?B"
        using True by (rule id_take_nth_drop)
      have li: "live_ids roots = live_ids ?A @ ids ?t @ live_ids ?B"
        using arg_cong [OF split, of live_ids] by simp
      have parts: "distinct (live_ids ?A @ ids ?t @ live_ids ?B)"
        "set (live_ids ?A @ ids ?t @ live_ids ?B) \<subseteq> {0..nextId s - 1}"
        using dist below unfolding li by simp_all
      have "\<forall>t \<in> set (?A @ ?B). full_or_none t"
        using fon by (auto dest: in_set_takeD in_set_dropD)
      then have "consistent (s, ?A @ ?B)"
        using parts nonneg log by (auto simp: consistent_def)
      then show ?thesis
        using True by (simp add: P Destroy)
    qed
  qed
qed

lemma run_snoc: "run (cs @ [c]) = step c (run cs)"
  by (simp add: run_def)

lemma run_consistent: "consistent (run cs)"
proof (induction cs rule: rev_induct)
  case Nil
  show ?case
    by (simp add: run_def consistent_def init_def)
next
  case (snoc c cs)
  then show ?case
    using step_consistent [of "run cs" c] by (simp add: run_snoc)
qed




lemma run16:
  "run [Construct \<lparr>x = 0, y = 0\<rparr> 16 16, Subdivide 0] =
     (snd (build \<lparr>x = 0, y = 0\<rparr> 16 16), [example16])"
  by (simp add: run_def build16 new_QuadTree_def init_def)
     (use subdivide_fresh16 in \<open>simp add: init_def\<close>)

section \<open>The claims\<close>

text \<open>
  C1, as stated, expects 21 nodes, the identities 0 to 20 and 20 edge declarations for the
  root of 100 by 100 at the origin. The children of 25 by 25 are above the size floor and
  are subdivided as well, so the tree has one more level than the count 1 + 4 + 16 allows
  for.
\<close>

theorem main_example_counterexample:
  "\<not> (length (nodes (fst (build \<lparr>x = 0, y = 0\<rparr> 100 100))) = 21
       \<and> set (map id' (nodes (fst (build \<lparr>x = 0, y = 0\<rparr> 100 100)))) = {0..20}
       \<and> length (filter has_arrow (split_lines (toDotty (fst (build \<lparr>x = 0, y = 0\<rparr> 100 100)))))
           = 20)"
proof -
  obtain t s where b: "build \<lparr>x = 0, y = 0\<rparr> 100 100 = (t, s)"
    by (rule prod.exhaust)
  have "nextId s = 85"
    using build100_counter b by simp
  then have "length (nodes t) = 85"
    using build_count [OF b] by simp
  then show ?thesis
    by (simp add: b)
qed

text \<open>
  C1, amended. For the root of 100 by 100 at the origin, constructed from the initial state
  and subdivided, the tree has exactly 85 nodes: the root, 4 nodes of width 50, 16 of
  width 25 and 64 leaves of width 12. Their identities are exactly 0 to 84, each once, and
  the graph export holds exactly 84 edge declarations.
\<close>

theorem main_example:
  "length (nodes (fst (build \<lparr>x = 0, y = 0\<rparr> 100 100))) = 85
   \<and> set (map id' (nodes (fst (build \<lparr>x = 0, y = 0\<rparr> 100 100)))) = {0..84}
   \<and> distinct (map id' (nodes (fst (build \<lparr>x = 0, y = 0\<rparr> 100 100))))
   \<and> length (filter has_arrow (split_lines (toDotty (fst (build \<lparr>x = 0, y = 0\<rparr> 100 100)))))
       = 84
   \<and> map (\<lambda>w. length (filter (\<lambda>n. width n = w) (nodes (fst (build \<lparr>x = 0, y = 0\<rparr> 100 100)))))
         [100, 50, 25, 12] = [1, 4, 16, 64]"
proof -
  obtain t s where b: "build \<lparr>x = 0, y = 0\<rparr> 100 100 = (t, s)"
    by (rule prod.exhaust)
  have n: "nextId s = 85"
    using build100_counter b by simp
  have len: "length (nodes t) = 85"
    using build_count [OF b] n by simp
  have ids: "set (map id' (nodes t)) = {0..84}" "distinct (map id' (nodes t))"
    using build_id_set [OF b] n by simp_all
  have edges: "length (filter has_arrow (split_lines (toDotty t))) = 84"
    using build_edges [of t] len by simp
  have "map width (nodes t) =
     [100, 50, 25, 12, 12, 12, 12, 25, 12, 12, 12, 12, 25, 12, 12, 12, 12, 25, 12, 12, 12, 12,
      50, 25, 12, 12, 12, 12, 25, 12, 12, 12, 12, 25, 12, 12, 12, 12, 25, 12, 12, 12, 12,
      50, 25, 12, 12, 12, 12, 25, 12, 12, 12, 12, 25, 12, 12, 12, 12, 25, 12, 12, 12, 12,
      50, 25, 12, 12, 12, 12, 25, 12, 12, 12, 12, 25, 12, 12, 12, 12, 25, 12, 12, 12, 12]"
    using build100_widths b by simp
  then have "length (filter (\<lambda>w'. w' = w) (map width (nodes t)))
      = (if w = 100 then 1 else if w = 50 then 4 else if w = 25 then 16
         else if w = 12 then 64 else 0)" for w
    by simp
  then have levels: "map (\<lambda>w. length (filter (\<lambda>n. width n = w) (nodes t))) [100, 50, 25, 12]
      = [1, 4, 16, 64]"
    by (simp add: filter_map comp_def)
  from len ids edges levels show ?thesis
    by (simp add: b)
qed










text \<open>
  C6. Invoking \<^verbatim>\<open>subdivide\<close> on a node that already has children leaves the tree as it is:
  the same node with the same descendants and identities comes back, and the identity
  counter and the record of constructed nodes are not advanced.
\<close>

theorem subdivide_again_unchanged:
  "northWest t \<noteq> None \<Longrightarrow>
   fst (subdivide t s) = t \<and> nodes (fst (subdivide t s)) = nodes t
     \<and> nextId (snd (subdivide t s)) = nextId s \<and> created (snd (subdivide t s)) = created s"
  by (simp add: subdivide_guard)

theorem subdivide_again_unchanged_witness:
  "northWest example16 \<noteq> None \<and> fst (subdivide example16 init) = example16
     \<and> nextId (snd (subdivide example16 init)) = nextId init"
  using subdivide_again_unchanged [of example16 init]
  by (simp add: example16_def)

text \<open>
  C7, as stated, says that an already subdivided node above the size floor returns without
  a report. The already subdivided root of the 16 by 16 example is such a node, and the
  call writes a line to the standard output.
\<close>

theorem already_subdivided_reports_counterexample:
  "northWest example16 \<noteq> None \<and> 15 < width example16 \<and> 15 < height example16
     \<and> cout (snd (subdivide example16 init)) \<noteq> cout init
     \<and> cout (snd (subdivide example16 init))
         = ''Node 0: Cannot subdivide further (Size=16x16). Marking as leaf.\<newline>''"
  by (simp add: subdivide_guard example16_def init_def diagnostic_def to_string_def dec_digit dec_step digit_def)

text \<open>
  C7, amended. The two size tests and the test for an existing north-west child are one
  guard with one branch: whichever of them holds, \<^verbatim>\<open>subdivide\<close> returns the node unchanged
  after writing the same report, "Node id: Cannot subdivide further (Size=WxH). Marking as
  leaf.", for the node it was invoked on.
\<close>

theorem guard_reports:
  "width t \<le> 15 \<or> height t \<le> 15 \<or> northWest t \<noteq> None \<Longrightarrow>
   subdivide t s = (t, s\<lparr>cout := cout s @ diagnostic t\<rparr>)
     \<and> diagnostic t = ''Node '' @ to_string (id' t) @ '': Cannot subdivide further (Size=''
          @ to_string (width t) @ ''x'' @ to_string (height t) @ ''). Marking as leaf.\<newline>''"
  by (simp add: subdivide_guard diagnostic_def)

theorem guard_reports_witness:
  "northWest example16 \<noteq> None
     \<and> subdivide example16 init = (example16, init\<lparr>cout := cout init @ diagnostic example16\<rparr>)"
  using guard_reports [of example16 init]
  by (simp add: example16_def)

text \<open>
  C8, as stated, puts the four edge declarations of an internal node directly after the
  node's own declaration, before any other node's declaration. In the export of the 16 by
  16 example the root is declared on the third line and its north-west edge on the fourth,
  but the fifth line is the declaration of node 1, and the north-east edge comes only on
  the sixth.
\<close>

theorem edges_right_after_declaration_counterexample:
  "split_lines (toDotty example16) ! 2 = node_decl example16
   \<and> split_lines (toDotty example16) ! 3
       = ''  node_0 -> node_1 [label='' @ dquote @ ''NW'' @ dquote @ ''];''
   \<and> split_lines (toDotty example16) ! 4
       = ''  node_1 [label='' @ dquote @ ''ID: 1'' @ bslash @ ''nPos: (0, 0)'' @ bslash
           @ ''nSize: 8x8'' @ bslash @ ''n(Leaf)'' @ dquote @ '', fillcolor=lightgreen];''
   \<and> \<not> has_arrow (split_lines (toDotty example16) ! 4)
   \<and> split_lines (toDotty example16) ! 5
       = ''  node_0 -> node_2 [label='' @ dquote @ ''NE'' @ dquote @ ''];''"
proof -
  have "split_lines (toDotty example16) ! 4 = node_decl (leaf 1 \<lparr>x = 0, y = 0\<rparr> 8 8)"
    by (simp add: toDotty_lines example16_def)
  then have "\<not> has_arrow (split_lines (toDotty example16) ! 4)"
    by simp
  then show ?thesis
    by (simp add: toDotty_lines example16_def node_decl_def edge_decl_def toString_def
        to_string_small)
qed

text \<open>
  C8, amended. \<^verbatim>\<open>toDottyRecursive\<close> writes each edge and then at once the whole subtree
  of the edge's target. For every node with four children, the export holds, as
  consecutive lines: the node's declaration, the north-west edge, the lines of the
  north-west subtree, the north-east edge, the lines of the north-east subtree, the
  south-west edge and subtree, the south-east edge and subtree. Each subtree starts with
  the declaration of its root, so only the north-west edge follows the node's own
  declaration directly.
\<close>

theorem edges_interleaved_with_subtrees:
  assumes "n \<in> set (nodes t)"
    and "northWest n = Some nw" and "northEast n = Some ne"
    and "southWest n = Some sw" and "southEast n = Some se"
  shows "(\<exists>pre post.
            split_lines (toDotty t) =
              pre @ [node_decl n, edge_decl n nw ''NW''] @ split_lines (toDottyRecursive nw [])
                @ [edge_decl n ne ''NE''] @ split_lines (toDottyRecursive ne [])
                @ [edge_decl n sw ''SW''] @ split_lines (toDottyRecursive sw [])
                @ [edge_decl n se ''SE''] @ split_lines (toDottyRecursive se []) @ post)
         \<and> hd (split_lines (toDottyRecursive nw [])) = node_decl nw
         \<and> hd (split_lines (toDottyRecursive ne [])) = node_decl ne
         \<and> hd (split_lines (toDottyRecursive sw [])) = node_decl sw
         \<and> hd (split_lines (toDottyRecursive se [])) = node_decl se"
proof -
  from tree_lines_node [OF assms(1)] obtain pre post
    where a: "tree_lines t = pre @ tree_lines n @ post"
    by blast
  let ?inner = "[node_decl n, edge_decl n nw ''NW''] @ tree_lines nw
           @ [edge_decl n ne ''NE''] @ tree_lines ne
           @ [edge_decl n sw ''SW''] @ tree_lines sw
           @ [edge_decl n se ''SE''] @ tree_lines se"
  have b: "tree_lines n = ?inner"
    using assms(2-5) by (rule tree_lines_four)
  have "split_lines (toDotty t) =
          (''digraph QuadTree {'' # ''  node [shape=box, style=filled, fillcolor=lightblue];''
             # pre) @ ?inner @ (post @ [''}''])"
    by (simp add: toDotty_lines a b)
  then have "\<exists>pre post. split_lines (toDotty t) = pre @ ?inner @ post"
    by blast
  then show ?thesis
    by (simp add: toDottyRecursive_split_lines hd_tree_lines)
qed

theorem edges_interleaved_with_subtrees_witness:
  "example16 \<in> set (nodes example16)
   \<and> northWest example16 = Some (leaf 1 \<lparr>x = 0, y = 0\<rparr> 8 8)
   \<and> northEast example16 = Some (leaf 2 \<lparr>x = 8, y = 0\<rparr> 8 8)
   \<and> southWest example16 = Some (leaf 3 \<lparr>x = 0, y = 8\<rparr> 8 8)
   \<and> southEast example16 = Some (leaf 4 \<lparr>x = 8, y = 8\<rparr> 8 8)
   \<and> hd (split_lines (toDottyRecursive (leaf 2 \<lparr>x = 8, y = 0\<rparr> 8 8) []))
       = node_decl (leaf 2 \<lparr>x = 8, y = 0\<rparr> 8 8)"
proof -
  have m: "example16 \<in> set (nodes example16)"
    by (simp add: example16_nodes)
  from edges_interleaved_with_subtrees [OF m example16_children] m example16_children
  show ?thesis
    by simp
qed

text \<open>
  C9. Every node of the tree that \<^verbatim>\<open>subdivide\<close> builds from a node without children has
  no child or exactly four, and so has every node of every tree the client holds after any
  sequence of calls, that is in every state between two calls of a process run.
\<close>

theorem full_or_none_children:
  "(children t = [] \<longrightarrow>
      (\<forall>n \<in> set (nodes (fst (subdivide t s))).
         length (children n) = 0 \<or> length (children n) = 4))
   \<and> (\<forall>r \<in> set (snd (run cs)). \<forall>n \<in> set (nodes r).
         length (children n) = 0 \<or> length (children n) = 4)"
proof -
  have "\<forall>n \<in> set (nodes (fst (subdivide t s))).
          length (children n) = 0 \<or> length (children n) = 4" if "children t = []"
    using subdivide_childless_grown [OF that, of s] grown_full_or_none
    by (cases "subdivide t s") auto
  moreover have "\<forall>r \<in> set (snd (run cs)). full_or_none r"
    using run_consistent [of cs] by (cases "run cs") (simp add: consistent_def)
  ultimately show ?thesis
    unfolding full_or_none_def by blast
qed

theorem full_or_none_children_witness:
  "children (leaf 0 \<lparr>x = 0, y = 0\<rparr> 16 16) = []
   \<and> fst (subdivide (leaf 0 \<lparr>x = 0, y = 0\<rparr> 16 16) (init\<lparr>nextId := 1, created := [0]\<rparr>))
       = example16
   \<and> snd (run [Construct \<lparr>x = 0, y = 0\<rparr> 16 16, Subdivide 0]) = [example16]
   \<and> map (\<lambda>n. length (children n)) (nodes example16) = [4, 0, 0, 0, 0]
   \<and> list_all (\<lambda>n. length (children n) = 0 \<or> length (children n) = 4) (nodes example16)"
proof -
  have c: "children (leaf 0 \<lparr>x = 0, y = 0\<rparr> 16 16) = []"
    by (simp add: children_def)
  have m: "map (\<lambda>n. length (children n)) (nodes example16) = [4, 0, 0, 0, 0]"
    by (simp add: example16_nodes) (simp add: example16_def children_def)
  from full_or_none_children
         [of "leaf 0 \<lparr>x = 0, y = 0\<rparr> 16 16" "init\<lparr>nextId := 1, created := [0]\<rparr>"
            "[Construct \<lparr>x = 0, y = 0\<rparr> 16 16, Subdivide 0]"]
  have "list_all (\<lambda>n. length (children n) = 0 \<or> length (children n) = 4) (nodes example16)"
    using c by (simp add: subdivide_fresh16 list_all_iff)
  with c m show ?thesis
    by (simp add: subdivide_fresh16 run16)
qed



end
